theory Spec2Isabelle
  imports Main "HOL-Library.Word"
begin

section \<open>Data model of package orderedlist\<close>

text \<open>
  The package stores pairs of a string key and an unsigned 64-bit value, ordered from the
  lowest value to the highest. \<open>Record\<close> and \<open>OrderedList\<close> are the two structs of
  \<^verbatim>\<open>orderedlist.go\<close>. A Go \<^verbatim>\<open>uint64\<close> is a \<open>64 word\<close>, whose order is the
  unsigned one; the Go map \<^verbatim>\<open>map[string]bool\<close> is a partial map, so that an entry
  that was deleted and an entry that was never written are both \<open>None\<close>; the slice
  \<^verbatim>\<open>[]Record\<close> is a list. A container owns its map and its slice: two containers
  never share them. A container has a map, the one \<^verbatim>\<open>New\<close> made for it.
\<close>

record Record =
  Key :: string
  Value :: "64 word"

record OrderedList =
  Bookkeeping :: "string \<rightharpoonup> bool"
  Rec :: "Record list"

text \<open>
  The two error values of the package, \<^verbatim>\<open>errors.New("key already exists")\<close> and
  \<^verbatim>\<open>errors.New("key does not exists")\<close>. The specification calls them
  DuplicateKeyError and KeyNotFoundError.
\<close>

datatype error = KeyAlreadyExists | KeyDoesNotExist

text \<open>The run-time panic of an index expression outside the slice.\<close>

datatype panic = IndexOutOfRange

text \<open>\<^verbatim>\<open>New\<close>: a fresh map and the nil slice.\<close>

definition New :: OrderedList where
  "New = \<lparr>Bookkeeping = Map.empty, Rec = []\<rparr>"

text \<open>
  Reading a Go map at a key it does not hold gives the zero value, \<^verbatim>\<open>false\<close>.
  \<open>exists ol key\<close> is the value of \<^verbatim>\<open>ol.Bookkeeping[key]\<close>.
\<close>

definition exists :: "OrderedList \<Rightarrow> string \<Rightarrow> bool" where
  "exists ol key = (case Bookkeeping ol key of None \<Rightarrow> False | Some b \<Rightarrow> b)"

section \<open>The two private scans\<close>

text \<open>
  \<^verbatim>\<open>getPosition\<close>: the index of the first record whose value is not below
  \<open>value\<close>, and \<open>-1\<close> when the loop ends without a \<^verbatim>\<open>break\<close>. The loop is the
  recursion over the slice; the third argument is the loop index \<^verbatim>\<open>i\<close>.
\<close>

fun getPosition_loop :: "Record list \<Rightarrow> 64 word \<Rightarrow> int \<Rightarrow> int" where
  "getPosition_loop [] value i = - 1"
| "getPosition_loop (record # rest) value i =
     (if value \<le> Value record then i else getPosition_loop rest value (i + 1))"

definition getPosition :: "OrderedList \<Rightarrow> 64 word \<Rightarrow> int" where
  "getPosition ol value = getPosition_loop (Rec ol) value 0"

text \<open>
  \<^verbatim>\<open>getIndexByKey\<close>: the index of the first record with the key, or \<open>-1\<close> and the
  error.
\<close>

fun getIndexByKey_loop :: "Record list \<Rightarrow> string \<Rightarrow> int \<Rightarrow> int \<times> error option" where
  "getIndexByKey_loop [] key i = (- 1, Some KeyDoesNotExist)"
| "getIndexByKey_loop (record # rest) key i =
     (if Key record = key then (i, None) else getIndexByKey_loop rest key (i + 1))"

definition getIndexByKey :: "OrderedList \<Rightarrow> string \<Rightarrow> int \<times> error option" where
  "getIndexByKey ol key = getIndexByKey_loop (Rec ol) key 0"

section \<open>The methods\<close>

text \<open>
  Every method has a pointer receiver. A method is a function from the receiver's state
  to its results and the receiver's state at return.

  \<open>copy_into s d src\<close> is the slice \<open>s\<close> after \<^verbatim>\<open>copy(s[d:], src)\<close>: the built-in
  copies as many elements as the shorter of the two slices holds, and reads the source
  before it writes where the two overlap.
\<close>

definition copy_into :: "'a list \<Rightarrow> nat \<Rightarrow> 'a list \<Rightarrow> 'a list" where
  "copy_into s d src =
     (let n = min (length s - d) (length src)
      in take d s @ take n src @ drop (d + n) s)"

text \<open>
  \<^verbatim>\<open>Insert\<close>. The first component of the result is the returned error, \<open>None\<close>
  for \<^verbatim>\<open>nil\<close>. The index that \<^verbatim>\<open>getPosition\<close> returns is \<open>-1\<close> or lies inside
  the slice (lemma \<open>getPosition_range\<close> below), so neither slice expression leaves the
  slice that was extended by one element.
\<close>

definition Insert :: "OrderedList \<Rightarrow> string \<Rightarrow> 64 word \<Rightarrow> error option \<times> OrderedList" where
  "Insert ol key value =
     (if exists ol key then (Some KeyAlreadyExists, ol)
      else
        let index = getPosition ol value;
            ol1 =
              (if index = - 1 then ol\<lparr>Rec := Rec ol @ [\<lparr>Key = key, Value = value\<rparr>]\<rparr>
               else
                 let rec1 = Rec ol @ [\<lparr>Key = [], Value = 0\<rparr>];
                     rec2 = copy_into rec1 (nat (index + 1)) (drop (nat index) rec1);
                     rec3 = rec2[nat index := \<lparr>Key = key, Value = value\<rparr>]
                 in ol\<lparr>Rec := rec3\<rparr>)
        in (None, ol1\<lparr>Bookkeeping := (Bookkeeping ol1)(key \<mapsto> True)\<rparr>))"

text \<open>
  \<^verbatim>\<open>Get\<close> returns the pair of the value and the error, \<open>0\<close> with the error of
  the scan, and writes nothing.
\<close>

definition Get :: "OrderedList \<Rightarrow> string \<Rightarrow> (64 word \<times> error option) \<times> OrderedList" where
  "Get ol key =
     (case getIndexByKey ol key of
        (index, Some err) \<Rightarrow> ((0, Some err), ol)
      | (index, None) \<Rightarrow> ((Value (Rec ol ! nat index), None), ol))"

text \<open>
  \<^verbatim>\<open>GetLowest\<close> and \<^verbatim>\<open>GetHighest\<close> index the slice at \<open>0\<close> and at
  \<^verbatim>\<open>len(ol.Rec)-1\<close> with no check: on the empty slice the index expression panics.
\<close>

definition GetLowest :: "OrderedList \<Rightarrow> (panic + 64 word) \<times> OrderedList" where
  "GetLowest ol =
     (if 0 < length (Rec ol) then (Inr (Value (Rec ol ! 0)), ol)
      else (Inl IndexOutOfRange, ol))"

definition GetHighest :: "OrderedList \<Rightarrow> (panic + 64 word) \<times> OrderedList" where
  "GetHighest ol =
     (let index = int (length (Rec ol)) - 1
      in if 0 \<le> index \<and> index < int (length (Rec ol))
         then (Inr (Value (Rec ol ! nat index)), ol)
         else (Inl IndexOutOfRange, ol))"

text \<open>
  \<^verbatim>\<open>Remove\<close>: \<^verbatim>\<open>append(ol.Rec[:index], ol.Rec[index+1:]...)\<close> is the slice
  without the element at \<open>index\<close>; \<^verbatim>\<open>delete\<close> takes the key out of the map.
\<close>

definition Remove :: "OrderedList \<Rightarrow> string \<Rightarrow> error option \<times> OrderedList" where
  "Remove ol key =
     (case getIndexByKey ol key of
        (index, Some err) \<Rightarrow> (Some err, ol)
      | (index, None) \<Rightarrow>
          (None, ol\<lparr>Rec := take (nat index) (Rec ol) @ drop (nat (index + 1)) (Rec ol),
                    Bookkeeping := (Bookkeeping ol)(key := None)\<rparr>))"

text \<open>\<^verbatim>\<open>Update\<close>: \<^verbatim>\<open>Remove\<close>, then \<^verbatim>\<open>Insert\<close>, each error returned at once.\<close>

definition Update :: "OrderedList \<Rightarrow> string \<Rightarrow> 64 word \<Rightarrow> error option \<times> OrderedList" where
  "Update ol key value =
     (case Remove ol key of
        (Some err, ol1) \<Rightarrow> (Some err, ol1)
      | (None, ol1) \<Rightarrow>
          (case Insert ol1 key value of
             (Some err, ol2) \<Rightarrow> (Some err, ol2)
           | (None, ol2) \<Rightarrow> (None, ol2)))"

text \<open>
  \<^verbatim>\<open>Merge\<close> takes a second container by pointer, which may be the receiver itself,
  so it is a function on a store of containers. The \<^verbatim>\<open>range\<close> clause evaluates
  \<^verbatim>\<open>source.Rec\<close> once, before the first iteration; the loop then calls
  \<^verbatim>\<open>ol.Insert\<close> for each record and drops the error it returns. \<^verbatim>\<open>Merge\<close> has
  no result. The records of the source are passed to the loop as a list: when the source
  is the receiver, the list is exact as long as no \<^verbatim>\<open>Insert\<close> of the loop succeeds,
  which is the case in every container that satisfies \<open>wf\<close> below.
\<close>

type_synonym ref = nat
type_synonym store = "ref \<Rightarrow> OrderedList"

fun Merge_loop :: "store \<Rightarrow> ref \<Rightarrow> Record list \<Rightarrow> store" where
  "Merge_loop s ol [] = s"
| "Merge_loop s ol (record # rest) =
     Merge_loop (s(ol := snd (Insert (s ol) (Key record) (Value record)))) ol rest"

definition Merge :: "store \<Rightarrow> ref \<Rightarrow> ref \<Rightarrow> store" where
  "Merge s ol source = Merge_loop s ol (Rec (s source))"

section \<open>Sequences of calls\<close>

text \<open>
  A program that uses the package constructs containers with \<^verbatim>\<open>New\<close> and then
  calls the four methods that write, in any order and on any of its containers. \<open>run\<close>
  gives the store after such a sequence of calls, whatever each call returned.
\<close>

datatype call =
    CallInsert ref string "64 word"
  | CallRemove ref string
  | CallUpdate ref string "64 word"
  | CallMerge ref ref

fun exec :: "store \<Rightarrow> call \<Rightarrow> store" where
  "exec s (CallInsert ol key value) = s(ol := snd (Insert (s ol) key value))"
| "exec s (CallRemove ol key) = s(ol := snd (Remove (s ol) key))"
| "exec s (CallUpdate ol key value) = s(ol := snd (Update (s ol) key value))"
| "exec s (CallMerge ol source) = Merge s ol source"

definition run :: "call list \<Rightarrow> store" where
  "run calls = foldl exec (\<lambda>_. New) calls"

section \<open>The invariant\<close>

text \<open>
  \<open>wf\<close> collects the three invariants of the data model: the records are in
  ascending order of value, no key occurs twice among them, and the map holds exactly
  the keys of the records, each with the marker \<^verbatim>\<open>true\<close>.
\<close>

definition wf :: "OrderedList \<Rightarrow> bool" where
  "wf ol \<longleftrightarrow>
     sorted (map Value (Rec ol)) \<and> distinct (map Key (Rec ol)) \<and>
     (\<forall>k. Bookkeeping ol k = (if k \<in> Key ` set (Rec ol) then Some True else None))"

section \<open>What the scans compute\<close>

lemmas eval_defs = run_def Merge_def Insert_def Remove_def Update_def Get_def exists_def
  getPosition_def getIndexByKey_def copy_into_def New_def Let_def GetLowest_def GetHighest_def

lemma getPosition_loop_eq:
  "getPosition_loop rs v i =
     (if \<forall>r\<in>set rs. Value r < v then - 1
      else i + int (length (takeWhile (\<lambda>r. Value r < v) rs)))"
  by (induction rs arbitrary: i) (auto simp: not_le)

lemma getPosition_eq:
  "getPosition ol v =
     (if \<forall>r\<in>set (Rec ol). Value r < v then - 1
      else int (length (takeWhile (\<lambda>r. Value r < v) (Rec ol))))"
  by (simp add: getPosition_def getPosition_loop_eq)

lemma length_takeWhile_lt:
  "\<exists>r\<in>set rs. \<not> P r \<Longrightarrow> length (takeWhile P rs) < length rs"
  by (induction rs) auto

lemma getPosition_range:
  "getPosition ol v = - 1 \<or> (0 \<le> getPosition ol v \<and> getPosition ol v < int (length (Rec ol)))"
proof (cases "\<forall>r\<in>set (Rec ol). Value r < v")
  case True
  then show ?thesis by (simp add: getPosition_eq)
next
  case False
  then have "length (takeWhile (\<lambda>r. Value r < v) (Rec ol)) < length (Rec ol)"
    by (intro length_takeWhile_lt) auto
  with False show ?thesis by (simp add: getPosition_eq)
qed

lemma getIndexByKey_loop_eq:
  "getIndexByKey_loop rs key i =
     (if key \<in> Key ` set rs
      then (i + int (length (takeWhile (\<lambda>r. Key r \<noteq> key) rs)), None)
      else (- 1, Some KeyDoesNotExist))"
  by (induction rs arbitrary: i) auto

lemma getIndexByKey_eq:
  "getIndexByKey ol key =
     (if key \<in> Key ` set (Rec ol)
      then (int (length (takeWhile (\<lambda>r. Key r \<noteq> key) (Rec ol))), None)
      else (- 1, Some KeyDoesNotExist))"
  by (simp add: getIndexByKey_def getIndexByKey_loop_eq)

lemma shift_insert:
  assumes "n < length xs"
  shows "(copy_into (xs @ [z]) (Suc n) (drop n (xs @ [z])))[n := x] = take n xs @ x # drop n xs"
proof -
  have len: "min (length (xs @ [z]) - Suc n) (length (drop n (xs @ [z]))) = length xs - n"
    using assms by simp
  have "copy_into (xs @ [z]) (Suc n) (drop n (xs @ [z])) = take (Suc n) xs @ drop n xs"
    unfolding copy_into_def Let_def len using assms by simp
  also have "\<dots> = (take n xs @ [xs ! n]) @ drop n xs"
    using assms by (simp add: take_Suc_conv_app_nth)
  finally have eq: "copy_into (xs @ [z]) (Suc n) (drop n (xs @ [z])) = take n xs @ xs ! n # drop n xs"
    by simp
  have "length (take n xs) = n"
    using assms by simp
  then have "(take n xs @ xs ! n # drop n xs)[n := x] = take n xs @ x # drop n xs"
    by (metis list_update_length)
  then show ?thesis
    unfolding eq .
qed

lemma Insert_eq:
  assumes "\<not> exists ol key"
  shows "Insert ol key v =
    (None, ol\<lparr>Rec := takeWhile (\<lambda>r. Value r < v) (Rec ol) @
                     \<lparr>Key = key, Value = v\<rparr> # dropWhile (\<lambda>r. Value r < v) (Rec ol),
              Bookkeeping := (Bookkeeping ol)(key \<mapsto> True)\<rparr>)"
proof (cases "\<forall>r\<in>set (Rec ol). Value r < v")
  case True
  then have tk: "takeWhile (\<lambda>r. Value r < v) (Rec ol) = Rec ol"
    and dr: "dropWhile (\<lambda>r. Value r < v) (Rec ol) = []"
    by simp_all
  have pos: "getPosition ol v = - 1"
    using True by (simp add: getPosition_eq)
  show ?thesis
    unfolding Insert_def Let_def pos tk dr using assms by simp
next
  case False
  let ?n = "length (takeWhile (\<lambda>r. Value r < v) (Rec ol))"
  have n: "?n < length (Rec ol)"
    using False by (intro length_takeWhile_lt) auto
  have tk: "takeWhile (\<lambda>r. Value r < v) (Rec ol) = take ?n (Rec ol)"
    by (rule takeWhile_eq_take)
  have dr: "dropWhile (\<lambda>r. Value r < v) (Rec ol) = drop ?n (Rec ol)"
    by (rule dropWhile_eq_drop)
  have sn: "nat (int ?n + 1) = Suc ?n" and nn: "nat (int ?n) = ?n" and ne: "int ?n \<noteq> - 1"
    by simp_all
  have pos: "getPosition ol v = int ?n"
    using False by (simp add: getPosition_eq)
  have sh: "(copy_into (Rec ol @ [\<lparr>Key = [], Value = 0\<rparr>]) (Suc ?n)
               (drop ?n (Rec ol @ [\<lparr>Key = [], Value = 0\<rparr>])))[?n := \<lparr>Key = key, Value = v\<rparr>]
            = take ?n (Rec ol) @ \<lparr>Key = key, Value = v\<rparr> # drop ?n (Rec ol)"
    by (rule shift_insert [OF n])
  have "Insert ol key v =
    (None, ol\<lparr>Rec := take ?n (Rec ol) @ \<lparr>Key = key, Value = v\<rparr> # drop ?n (Rec ol),
              Bookkeeping := (Bookkeeping ol)(key \<mapsto> True)\<rparr>)"
    unfolding Insert_def Let_def pos sn nn sh using assms ne by simp
  then show ?thesis
    by (simp only: tk [symmetric] dr [symmetric])
qed

lemma Remove_absent:
  "key \<notin> Key ` set (Rec ol) \<Longrightarrow> Remove ol key = (Some KeyDoesNotExist, ol)"
  by (simp add: Remove_def getIndexByKey_eq)

lemma Remove_present:
  assumes "key \<in> Key ` set (Rec ol)"
  shows "Remove ol key =
    (None, ol\<lparr>Rec := takeWhile (\<lambda>r. Key r \<noteq> key) (Rec ol) @
                     tl (dropWhile (\<lambda>r. Key r \<noteq> key) (Rec ol)),
              Bookkeeping := (Bookkeeping ol)(key := None)\<rparr>)"
proof -
  let ?n = "length (takeWhile (\<lambda>r. Key r \<noteq> key) (Rec ol))"
  have tk: "takeWhile (\<lambda>r. Key r \<noteq> key) (Rec ol) = take ?n (Rec ol)"
    by (rule takeWhile_eq_take)
  have dr: "tl (dropWhile (\<lambda>r. Key r \<noteq> key) (Rec ol)) = drop (Suc ?n) (Rec ol)"
    by (metis dropWhile_eq_drop drop_Suc tl_drop)
  have sn: "nat (int ?n + 1) = Suc ?n" and nn: "nat (int ?n) = ?n"
    by simp_all
  have idx: "getIndexByKey ol key = (int ?n, None)"
    using assms by (simp add: getIndexByKey_eq)
  have "Remove ol key =
    (None, ol\<lparr>Rec := take ?n (Rec ol) @ drop (Suc ?n) (Rec ol),
              Bookkeeping := (Bookkeeping ol)(key := None)\<rparr>)"
    unfolding Remove_def idx by (simp add: sn)
  then show ?thesis
    by (simp only: tk [symmetric] dr [symmetric])
qed

lemma Get_absent:
  "key \<notin> Key ` set (Rec ol) \<Longrightarrow> Get ol key = ((0, Some KeyDoesNotExist), ol)"
  by (simp add: Get_def getIndexByKey_eq)

lemma Get_present:
  assumes "key \<in> Key ` set (Rec ol)"
  shows "Get ol key = ((Value (hd (dropWhile (\<lambda>r. Key r \<noteq> key) (Rec ol))), None), ol)"
proof -
  let ?n = "length (takeWhile (\<lambda>r. Key r \<noteq> key) (Rec ol))"
  have "?n < length (Rec ol)"
    using assms by (intro length_takeWhile_lt) auto
  then have "Rec ol ! ?n = hd (drop ?n (Rec ol))"
    by (simp add: hd_drop_conv_nth)
  then show ?thesis
    using assms dropWhile_eq_drop [of "\<lambda>r. Key r \<noteq> key" "Rec ol"]
    by (simp add: Get_def getIndexByKey_eq)
qed

section \<open>The calls keep the invariant\<close>

lemma wf_exists: "wf ol \<Longrightarrow> exists ol k \<longleftrightarrow> k \<in> Key ` set (Rec ol)"
  by (simp add: wf_def exists_def)

lemma wf_New: "wf New"
  by (simp add: wf_def New_def)

lemma sorted_place:
  "sorted (map Value rs) \<Longrightarrow>
   sorted (map Value (takeWhile (\<lambda>r. Value r < v) rs @
                      \<lparr>Key = k, Value = v\<rparr> # dropWhile (\<lambda>r. Value r < v) rs))"
proof (induction rs)
  case Nil
  then show ?case by simp
next
  case (Cons r rs)
  show ?case
  proof (cases "Value r < v")
    case True
    have "\<forall>x\<in>set (takeWhile (\<lambda>r. Value r < v) rs) \<union> set (dropWhile (\<lambda>r. Value r < v) rs).
            Value r \<le> Value x"
      using Cons.prems by (auto dest: set_takeWhileD set_dropWhileD)
    then show ?thesis
      using True Cons by auto
  next
    case False
    then have "v \<le> Value r" by simp
    then show ?thesis
      using False Cons.prems by auto
  qed
qed

lemma set_place: "set (takeWhile P rs @ x # dropWhile P rs) = insert x (set rs)"
proof -
  have "set (takeWhile P rs) \<union> set (dropWhile P rs) = set rs"
    by (metis set_append takeWhile_dropWhile_id)
  then show ?thesis by auto
qed

lemma distinct_place:
  assumes "distinct (map Key rs)" and "Key x \<notin> Key ` set rs"
  shows "distinct (map Key (takeWhile P rs @ x # dropWhile P rs))"
proof -
  have "distinct (map Key (takeWhile P rs @ dropWhile P rs))"
    using assms(1) by simp
  moreover have "set (takeWhile P rs) \<subseteq> set rs" and "set (dropWhile P rs) \<subseteq> set rs"
    by (auto dest: set_takeWhileD set_dropWhileD)
  ultimately show ?thesis
    using assms(2) by (auto simp del: takeWhile_dropWhile_id)
qed

lemma remove_filter:
  "distinct (map Key rs) \<Longrightarrow>
   takeWhile (\<lambda>r. Key r \<noteq> key) rs @ tl (dropWhile (\<lambda>r. Key r \<noteq> key) rs)
     = filter (\<lambda>r. Key r \<noteq> key) rs"
proof (induction rs)
  case Nil
  then show ?case by simp
next
  case (Cons r rs)
  show ?case
  proof (cases "Key r = key")
    case True
    have "Key r \<notin> Key ` set rs"
      using Cons.prems by simp
    then have "\<forall>x\<in>set rs. Key x \<noteq> key"
      using True by (metis imageI)
    then have "filter (\<lambda>r. Key r \<noteq> key) rs = rs"
      by simp
    with True show ?thesis by simp
  next
    case False
    with Cons show ?thesis by simp
  qed
qed

lemma wf_Insert: 
  assumes "wf ol"
  shows "wf (snd (Insert ol key v))"
proof (cases "exists ol key")
  case True
  then show ?thesis using assms by (simp add: Insert_def)
next
  case False
  let ?rs = "takeWhile (\<lambda>r. Value r < v) (Rec ol) @
               \<lparr>Key = key, Value = v\<rparr> # dropWhile (\<lambda>r. Value r < v) (Rec ol)"
  have new: "key \<notin> Key ` set (Rec ol)"
    using False assms by (simp add: wf_exists)
  have "sorted (map Value ?rs)"
    using assms by (intro sorted_place) (simp add: wf_def)
  moreover have "distinct (map Key ?rs)"
    using assms new by (intro distinct_place) (simp_all add: wf_def)
  moreover have "set ?rs = insert \<lparr>Key = key, Value = v\<rparr> (set (Rec ol))"
    by (rule set_place)
  moreover have "\<forall>k. Bookkeeping ol k = (if k \<in> Key ` set (Rec ol) then Some True else None)"
    using assms by (simp add: wf_def)
  ultimately show ?thesis
    unfolding Insert_eq [OF False] wf_def by simp
qed

lemma wf_Remove:
  assumes "wf ol"
  shows "wf (snd (Remove ol key))"
proof (cases "key \<in> Key ` set (Rec ol)")
  case True
  have d: "distinct (map Key (Rec ol))"
    using assms by (simp add: wf_def)
  show ?thesis
    using assms
    by (auto simp: Remove_present [OF True] remove_filter [OF d] wf_def sorted_filter
        distinct_map_filter)
next
  case False
  then show ?thesis using assms by (simp add: Remove_absent)
qed

lemma wf_Update: 
  assumes "wf ol"
  shows "wf (snd (Update ol key v))"
proof -
  have "wf (snd (Insert (snd (Remove ol key)) key v))"
    by (intro wf_Insert wf_Remove assms)
  then show ?thesis
    using wf_Remove [OF assms, of key]
    by (auto simp: Update_def split: prod.splits option.splits)
qed

lemma Merge_loop_eq:
  "Merge_loop s ol rs =
     s(ol := foldl (\<lambda>c r. snd (Insert c (Key r) (Value r))) (s ol) rs)"
  by (induction rs arbitrary: s) simp_all

lemma wf_fold_Insert:
  "wf c \<Longrightarrow> wf (foldl (\<lambda>c r. snd (Insert c (Key r) (Value r))) c rs)"
  by (induction rs arbitrary: c) (simp_all add: wf_Insert)

lemma wf_exec: "\<forall>p. wf (s p) \<Longrightarrow> wf (exec s c p)"
  by (cases c) (simp_all add: wf_Insert wf_Remove wf_Update Merge_def Merge_loop_eq wf_fold_Insert)

lemma wf_foldl_exec: "\<forall>p. wf (s p) \<Longrightarrow> wf (foldl exec s calls p)"
proof (induction calls arbitrary: s p)
  case Nil
  then show ?case by simp
next
  case (Cons c calls)
  have "\<forall>p. wf (exec s c p)"
    using Cons.prems by (simp add: wf_exec)
  then show ?case
    using Cons.IH by simp
qed

lemma wf_run: "wf (run calls p)"
  unfolding run_def by (rule wf_foldl_exec) (simp add: wf_New)

section \<open>Positions and lookups\<close>

lemma place_at_index:
  assumes "i < length rs" and "\<not> P (rs ! i)" and "\<forall>j<i. P (rs ! j)"
  shows "takeWhile P rs @ x # dropWhile P rs = take i rs @ x # drop i rs"
proof -
  have tk: "takeWhile P rs = take i rs"
    using assms by (intro takeWhile_eq_take_P_nth) simp_all
  then have "length (takeWhile P rs) = i"
    using assms(1) by simp
  then have "dropWhile P rs = drop i rs"
    using dropWhile_eq_drop [of P rs] by simp
  with tk show ?thesis by simp
qed

lemma place_at_end:
  assumes "\<forall>j<length rs. P (rs ! j)"
  shows "takeWhile P rs @ x # dropWhile P rs = rs @ [x]"
proof -
  have "\<forall>r\<in>set rs. P r"
    using assms by (auto simp: in_set_conv_nth)
  then show ?thesis by simp
qed

lemma first_index:
  assumes "i < length rs" and "\<not> P (rs ! i)" and "\<forall>j<i. P (rs ! j)"
  shows "takeWhile P rs @ tl (dropWhile P rs) = take i rs @ drop (Suc i) rs"
proof -
  have tk: "takeWhile P rs = take i rs"
    using assms by (intro takeWhile_eq_take_P_nth) simp_all
  then have "length (takeWhile P rs) = i"
    using assms(1) by simp
  then have "dropWhile P rs = drop i rs"
    using dropWhile_eq_drop [of P rs] by simp
  then have "tl (dropWhile P rs) = drop (Suc i) rs"
    by (simp add: drop_Suc tl_drop)
  with tk show ?thesis by simp
qed

lemma hd_dropWhile_key:
  assumes "Key x = k" and "\<forall>r\<in>set xs. Key r \<noteq> k"
  shows "hd (dropWhile (\<lambda>r. Key r \<noteq> k) (xs @ x # ys)) = x"
proof -
  have "dropWhile (\<lambda>r. Key r \<noteq> k) (xs @ x # ys) = dropWhile (\<lambda>r. Key r \<noteq> k) (x # ys)"
    using assms(2) by (intro dropWhile_append2) simp
  then show ?thesis using assms(1) by simp
qed

lemma Get_member:
  assumes "distinct (map Key (Rec ol))" and "r \<in> set (Rec ol)"
  shows "Get ol (Key r) = ((Value r, None), ol)"
proof -
  obtain xs ys where split: "Rec ol = xs @ r # ys"
    using assms(2) by (auto simp: in_set_conv_decomp)
  have "Key r \<notin> Key ` set xs"
    using assms(1) unfolding split by auto
  then have "\<forall>x\<in>set xs. Key x \<noteq> Key r"
    by (metis imageI)
  then have "hd (dropWhile (\<lambda>x. Key x \<noteq> Key r) (Rec ol)) = r"
    unfolding split by (intro hd_dropWhile_key) simp_all
  moreover have "Key r \<in> Key ` set (Rec ol)"
    using assms(2) by simp
  ultimately show ?thesis
    by (simp add: Get_present)
qed

lemma Get_Insert:
  assumes "\<not> exists ol k" and "k \<notin> Key ` set (Rec ol)"
  shows "Get (snd (Insert ol k v)) k = ((v, None), snd (Insert ol k v))"
proof -
  let ?P = "\<lambda>r. Value r < v"
  let ?new = "\<lparr>Key = k, Value = v\<rparr>"
  let ?rs = "takeWhile ?P (Rec ol) @ ?new # dropWhile ?P (Rec ol)"
  have rec: "Rec (snd (Insert ol k v)) = ?rs"
    by (simp add: Insert_eq [OF assms(1)])
  have "\<forall>r\<in>set (takeWhile ?P (Rec ol)). Key r \<noteq> k"
    using assms(2) by (metis imageI set_takeWhileD)
  then have "hd (dropWhile (\<lambda>r. Key r \<noteq> k) ?rs) = ?new"
    by (intro hd_dropWhile_key) simp_all
  moreover have "k \<in> Key ` set ?rs"
    by (simp add: set_place)
  ultimately show ?thesis
    using Get_present [of k "snd (Insert ol k v)"] unfolding rec by simp
qed

lemma Update_eq:
  "Update ol key v =
     (if key \<in> Key ` set (Rec ol) then Insert (snd (Remove ol key)) key v
      else (Some KeyDoesNotExist, ol))"
proof (cases "key \<in> Key ` set (Rec ol)")
  case True
  then show ?thesis
    by (cases "Insert (snd (Remove ol key)) key v")
       (auto simp: Update_def Remove_present split: option.splits)
next
  case False
  then show ?thesis
    by (simp add: Update_def Remove_absent)
qed

section \<open>Replaying a list of records\<close>

lemma exists_Insert:
  "exists (snd (Insert c k v)) k' \<longleftrightarrow> k' = k \<or> exists c k'"
proof (cases "exists c k")
  case True
  then show ?thesis by (auto simp: Insert_def)
next
  case False
  then show ?thesis by (simp add: Insert_eq exists_def)
qed

lemma set_Rec_Insert:
  "set (Rec (snd (Insert c k v))) =
     (if exists c k then set (Rec c) else insert \<lparr>Key = k, Value = v\<rparr> (set (Rec c)))"
proof (cases "exists c k")
  case True
  then show ?thesis by (simp add: Insert_def)
next
  case False
  have "Rec (snd (Insert c k v)) =
      takeWhile (\<lambda>r. Value r < v) (Rec c) @
      \<lparr>Key = k, Value = v\<rparr> # dropWhile (\<lambda>r. Value r < v) (Rec c)"
    by (simp add: Insert_eq [OF False])
  then have "set (Rec (snd (Insert c k v))) = insert \<lparr>Key = k, Value = v\<rparr> (set (Rec c))"
    by (simp only: set_place)
  with False show ?thesis by simp
qed

lemma Record_eta: "\<lparr>Key = Key r, Value = Value r\<rparr> = (r::Record)"
  by (cases r) simp

lemma fold_Insert_set:
  "distinct (map Key rs) \<Longrightarrow>
   set (Rec (foldl (\<lambda>c r. snd (Insert c (Key r) (Value r))) c rs)) =
     set (Rec c) \<union> {r \<in> set rs. \<not> exists c (Key r)}"
proof (induction rs arbitrary: c)
  case Nil
  then show ?case by simp
next
  case (Cons r rs)
  let ?c1 = "snd (Insert c (Key r) (Value r))"
  have other: "\<forall>x\<in>set rs. Key x \<noteq> Key r"
    using Cons.prems by (metis distinct.simps(2) imageI list.simps(9) set_map)
  have "set (Rec (foldl (\<lambda>c r. snd (Insert c (Key r) (Value r))) ?c1 rs)) =
      set (Rec ?c1) \<union> {x \<in> set rs. \<not> exists ?c1 (Key x)}"
    using Cons.prems by (intro Cons.IH) simp
  also have "{x \<in> set rs. \<not> exists ?c1 (Key x)} = {x \<in> set rs. \<not> exists c (Key x)}"
    using other by (auto simp: exists_Insert)
  also have "set (Rec ?c1) =
      (if exists c (Key r) then set (Rec c) else insert r (set (Rec c)))"
    by (simp add: set_Rec_Insert Record_eta)
  finally show ?case
    by auto
qed

lemma fold_Insert_all_exist:
  "\<forall>r\<in>set rs. exists c (Key r) \<Longrightarrow>
   foldl (\<lambda>c r. snd (Insert c (Key r) (Value r))) c rs = c"
  by (induction rs) (simp_all add: Insert_def)

section \<open>Lowest and highest value of a container that holds a record\<close>

lemma GetLowest_nonempty:
  assumes "Rec ol \<noteq> []"
  shows "GetLowest ol = (Inr (Value (hd (Rec ol))), ol)"
  using assms by (simp add: GetLowest_def hd_conv_nth)

lemma GetHighest_nonempty:
  assumes "Rec ol \<noteq> []"
  shows "GetHighest ol = (Inr (Value (last (Rec ol))), ol)"
proof -
  have "nat (int (length (Rec ol)) - 1) = length (Rec ol) - 1"
    by simp
  then show ?thesis
    using assms by (simp add: GetHighest_def Let_def last_conv_nth)
qed

lemma sorted_hd_least:
  assumes "sorted (map Value rs)" and "r \<in> set rs"
  shows "Value (hd rs) \<le> Value r"
  using assms by (cases rs) auto

lemma sorted_last_greatest:
  assumes "sorted (map Value rs)" and "r \<in> set rs"
  shows "Value r \<le> Value (last rs)"
proof -
  obtain i where i: "i < length rs" and r: "rs ! i = r"
    using assms(2) by (auto simp: in_set_conv_nth)
  then have ne: "rs \<noteq> []" by auto
  have "map Value rs ! i \<le> map Value rs ! (length rs - 1)"
    using assms(1) i by (intro sorted_nth_mono) simp_all
  then show ?thesis
    using i r ne by (simp add: last_conv_nth)
qed

lemma run_GetLowest_GetHighest:
  assumes "Rec (run calls ol) \<noteq> []"
  shows "GetLowest (run calls ol) = (Inr (Value (hd (Rec (run calls ol)))), run calls ol) \<and>
         GetHighest (run calls ol) = (Inr (Value (last (Rec (run calls ol)))), run calls ol) \<and>
         (\<forall>r\<in>set (Rec (run calls ol)).
            Value (hd (Rec (run calls ol))) \<le> Value r \<and>
            Value r \<le> Value (last (Rec (run calls ol))))"
proof -
  have "sorted (map Value (Rec (run calls ol)))"
    using wf_run [of calls ol] by (simp add: wf_def)
  then show ?thesis
    using assms
    by (simp add: GetLowest_nonempty GetHighest_nonempty sorted_hd_least sorted_last_greatest)
qed

section \<open>The claims\<close>

text \<open>
  Claim C1, the sort invariant. In every container of a store reached from freshly
  constructed containers by any sequence of \<^verbatim>\<open>Insert\<close>, \<^verbatim>\<open>Remove\<close>,
  \<^verbatim>\<open>Update\<close> and \<^verbatim>\<open>Merge\<close> calls, whether a call returned an error or not,
  the value of each record is at most the value of the record after it.
\<close>

theorem run_sorted:
  "i + 1 < length (Rec (run calls ol)) \<Longrightarrow>
   Value (Rec (run calls ol) ! i) \<le> Value (Rec (run calls ol) ! (i + 1))"
proof -
  assume i: "i + 1 < length (Rec (run calls ol))"
  have "sorted (map Value (Rec (run calls ol)))"
    using wf_run [of calls ol] by (simp add: wf_def)
  then have "map Value (Rec (run calls ol)) ! i \<le> map Value (Rec (run calls ol)) ! (i + 1)"
    using i by (intro sorted_nth_mono) simp_all
  then show ?thesis
    using i by simp
qed

theorem run_sorted_witness:
  "0 + 1 < length (Rec (run [CallInsert 0 ''a'' 7, CallInsert 0 ''b'' 3, CallInsert 1 ''c'' 5,
                             CallMerge 0 1, CallUpdate 0 ''a'' 2, CallRemove 0 ''b''] 0)) \<and>
   Value (Rec (run [CallInsert 0 ''a'' 7, CallInsert 0 ''b'' 3, CallInsert 1 ''c'' 5,
                    CallMerge 0 1, CallUpdate 0 ''a'' 2, CallRemove 0 ''b''] 0) ! 0)
     \<le> Value (Rec (run [CallInsert 0 ''a'' 7, CallInsert 0 ''b'' 3, CallInsert 1 ''c'' 5,
                       CallMerge 0 1, CallUpdate 0 ''a'' 2, CallRemove 0 ''b''] 0) ! (0 + 1))"
proof -
  have h: "0 + 1 < length (Rec (run [CallInsert 0 ''a'' 7, CallInsert 0 ''b'' 3,
      CallInsert 1 ''c'' 5, CallMerge 0 1, CallUpdate 0 ''a'' 2, CallRemove 0 ''b''] 0))"
    by (simp add: eval_defs)
  show ?thesis
    by (rule conjI [OF h run_sorted [OF h]])
qed

text \<open>
  Claim C2, the insertion position. When the key is new, \<^verbatim>\<open>Insert\<close> succeeds and
  puts the record at the smallest index whose record has a value not below the new
  value, moving that record and the later ones up by one; when no record has such a
  value, the record goes to the end. So a record goes before the records of equal value:
  inserting "x", "y" and "z" with the value 5 into the empty container gives the
  sequence z, y, x.
\<close>

theorem Insert_position:
  "(\<not> exists ol key \<longrightarrow>
      fst (Insert ol key value) = None \<and>
      (\<forall>i. i < length (Rec ol) \<and> value \<le> Value (Rec ol ! i) \<and>
            (\<forall>j<i. \<not> value \<le> Value (Rec ol ! j)) \<longrightarrow>
          Rec (snd (Insert ol key value)) =
            take i (Rec ol) @ \<lparr>Key = key, Value = value\<rparr> # drop i (Rec ol)) \<and>
      ((\<forall>i<length (Rec ol). \<not> value \<le> Value (Rec ol ! i)) \<longrightarrow>
          Rec (snd (Insert ol key value)) = Rec ol @ [\<lparr>Key = key, Value = value\<rparr>])) \<and>
   Rec (snd (Insert (snd (Insert (snd (Insert New ''x'' 5)) ''y'' 5)) ''z'' 5)) =
     [\<lparr>Key = ''z'', Value = 5\<rparr>, \<lparr>Key = ''y'', Value = 5\<rparr>, \<lparr>Key = ''x'', Value = 5\<rparr>]"
  (is "(?fresh \<longrightarrow> ?ok \<and> ?at \<and> ?end) \<and> ?example")
proof -
  let ?P = "\<lambda>r. Value r < value"
  let ?new = "\<lparr>Key = key, Value = value\<rparr>"
  have general: "?fresh \<longrightarrow> ?ok \<and> ?at \<and> ?end"
  proof (intro impI)
    assume fresh: ?fresh
    have rec: "Rec (snd (Insert ol key value)) =
        takeWhile ?P (Rec ol) @ ?new # dropWhile ?P (Rec ol)"
      by (simp add: Insert_eq [OF fresh])
    have ok: ?ok
      by (simp add: Insert_eq [OF fresh])
    have at: ?at
    proof (intro allI impI, elim conjE)
      fix i
      assume i: "i < length (Rec ol)" and here: "value \<le> Value (Rec ol ! i)"
        and before: "\<forall>j<i. \<not> value \<le> Value (Rec ol ! j)"
      have "\<not> ?P (Rec ol ! i)" and "\<forall>j<i. ?P (Rec ol ! j)"
        using here before by (simp_all add: not_le)
      then show "Rec (snd (Insert ol key value)) = take i (Rec ol) @ ?new # drop i (Rec ol)"
        unfolding rec using i by (intro place_at_index)
    qed
    have last: ?end
    proof (intro impI)
      assume "\<forall>i<length (Rec ol). \<not> value \<le> Value (Rec ol ! i)"
      then have "\<forall>j<length (Rec ol). ?P (Rec ol ! j)"
        by (simp add: not_le)
      then show "Rec (snd (Insert ol key value)) = Rec ol @ [?new]"
        unfolding rec by (rule place_at_end)
    qed
    show "?ok \<and> ?at \<and> ?end"
      by (rule conjI [OF ok conjI [OF at last]])
  qed
  have example: ?example
    by (simp add: eval_defs)
  show ?thesis
    by (rule conjI [OF general example])
qed

theorem Insert_position_witness:
  "\<not> exists \<lparr>Bookkeeping = [''a'' \<mapsto> True, ''b'' \<mapsto> True],
              Rec = [\<lparr>Key = ''a'', Value = 2\<rparr>, \<lparr>Key = ''b'', Value = 5\<rparr>]\<rparr> ''c'' \<and>
   (1::nat) < length [\<lparr>Key = ''a'', Value = 2\<rparr>, \<lparr>Key = ''b'', Value = 5\<rparr>] \<and>
   (5::64 word) \<le> Value ([\<lparr>Key = ''a'', Value = 2\<rparr>, \<lparr>Key = ''b'', Value = 5\<rparr>] ! 1) \<and>
   \<not> (5::64 word) \<le> Value ([\<lparr>Key = ''a'', Value = 2\<rparr>, \<lparr>Key = ''b'', Value = 5\<rparr>] ! 0) \<and>
   Rec (snd (Insert \<lparr>Bookkeeping = [''a'' \<mapsto> True, ''b'' \<mapsto> True],
                     Rec = [\<lparr>Key = ''a'', Value = 2\<rparr>, \<lparr>Key = ''b'', Value = 5\<rparr>]\<rparr> ''c'' 5)) =
     [\<lparr>Key = ''a'', Value = 2\<rparr>, \<lparr>Key = ''c'', Value = 5\<rparr>, \<lparr>Key = ''b'', Value = 5\<rparr>]"
proof -
  let ?ol = "\<lparr>Bookkeeping = [''a'' \<mapsto> True, ''b'' \<mapsto> True],
              Rec = [\<lparr>Key = ''a'', Value = 2\<rparr>, \<lparr>Key = ''b'', Value = 5\<rparr>]\<rparr>"
  have fresh: "\<not> exists ?ol ''c''"
    by (simp add: exists_def)
  have idx: "(1::nat) < length (Rec ?ol) \<and> (5::64 word) \<le> Value (Rec ?ol ! 1) \<and>
             (\<forall>j<1. \<not> (5::64 word) \<le> Value (Rec ?ol ! j))"
    by simp
  have "Rec (snd (Insert ?ol ''c'' 5)) =
          take 1 (Rec ?ol) @ \<lparr>Key = ''c'', Value = 5\<rparr> # drop 1 (Rec ?ol)"
    using Insert_position [of ?ol "''c''" 5, THEN conjunct1, rule_format, OF fresh,
        THEN conjunct2, THEN conjunct1, rule_format, OF idx] .
  then show ?thesis
    using fresh by simp
qed

text \<open>
  Claim C3, duplicate keys. When the map holds the key, \<^verbatim>\<open>Insert\<close> returns the
  error "key already exists" and the container at return is the container at the call,
  map and slice alike, whatever the value.
\<close>

theorem Insert_duplicate_unchanged:
  "exists ol key \<Longrightarrow> Insert ol key value = (Some KeyAlreadyExists, ol)"
  by (simp add: Insert_def)

theorem Insert_duplicate_unchanged_witness:
  "exists \<lparr>Bookkeeping = [''a'' \<mapsto> True], Rec = [\<lparr>Key = ''a'', Value = 1\<rparr>]\<rparr> ''a''
   \<and> Insert \<lparr>Bookkeeping = [''a'' \<mapsto> True], Rec = [\<lparr>Key = ''a'', Value = 1\<rparr>]\<rparr> ''a'' 7
       = (Some KeyAlreadyExists, \<lparr>Bookkeeping = [''a'' \<mapsto> True], Rec = [\<lparr>Key = ''a'', Value = 1\<rparr>]\<rparr>)"
proof -
  have h: "exists \<lparr>Bookkeeping = [''a'' \<mapsto> True], Rec = [\<lparr>Key = ''a'', Value = 1\<rparr>]\<rparr> ''a''"
    by (simp add: exists_def)
  show ?thesis using h Insert_duplicate_unchanged [OF h, of 7] by simp
qed

text \<open>
  Claim C4, \<^verbatim>\<open>Merge\<close>. In a store reached by a sequence of calls, merging the
  container \<open>source\<close> into the container \<open>ol\<close> leaves in \<open>ol\<close> what the
  successive \<^verbatim>\<open>Insert\<close> calls of the source's records, taken in the source's order
  and with their errors dropped, leave. Every other container is as before, and so is
  the source, also when it is the receiver. The receiver's records are its old records
  and the source's records whose key the receiver did not hold: a key the receiver held
  keeps its value, and each other record of the source is found in the receiver under
  its key. \<^verbatim>\<open>Merge\<close> has no result, so there is no error it could report.
\<close>

theorem Merge_spec:
  "Merge (run calls) ol source ol =
     foldl (\<lambda>c r. snd (Insert c (Key r) (Value r))) (run calls ol) (Rec (run calls source)) \<and>
   (\<forall>p. p \<noteq> ol \<longrightarrow> Merge (run calls) ol source p = run calls p) \<and>
   Merge (run calls) ol source source = run calls source \<and>
   set (Rec (Merge (run calls) ol source ol)) =
     set (Rec (run calls ol)) \<union>
     {r \<in> set (Rec (run calls source)). \<not> exists (run calls ol) (Key r)} \<and>
   (\<forall>k. exists (run calls ol) k \<longrightarrow>
        fst (Get (Merge (run calls) ol source ol) k) = fst (Get (run calls ol) k)) \<and>
   (\<forall>r. r \<in> set (Rec (run calls source)) \<and> \<not> exists (run calls ol) (Key r) \<longrightarrow>
        fst (Get (Merge (run calls) ol source ol) (Key r)) = (Value r, None))"
  (is "?replay \<and> ?others \<and> ?source \<and> ?records \<and> ?kept \<and> ?added")
proof -
  let ?s = "run calls"
  let ?s' = "Merge ?s ol source"
  let ?ins = "\<lambda>c r. snd (Insert c (Key r) (Value r))"
  have wf_ol: "wf (?s ol)" and wf_src: "wf (?s source)"
    by (rule wf_run)+
  have replay: ?replay
    by (simp add: Merge_def Merge_loop_eq)
  have others: ?others
    by (simp add: Merge_def Merge_loop_eq)
  have source: ?source
  proof (cases "source = ol")
    case True
    have "\<forall>r\<in>set (Rec (?s ol)). exists (?s ol) (Key r)"
      using wf_ol by (simp add: wf_exists)
    then have "foldl ?ins (?s ol) (Rec (?s ol)) = ?s ol"
      by (rule fold_Insert_all_exist)
    then show ?thesis
      using replay True by simp
  next
    case False
    then show ?thesis using others by simp
  qed
  have "distinct (map Key (Rec (?s source)))"
    using wf_src by (simp add: wf_def)
  then have "set (Rec (foldl ?ins (?s ol) (Rec (?s source)))) =
      set (Rec (?s ol)) \<union> {r \<in> set (Rec (?s source)). \<not> exists (?s ol) (Key r)}"
    by (rule fold_Insert_set)
  then have records: ?records
    unfolding replay .
  have "wf (foldl ?ins (?s ol) (Rec (?s source)))"
    using wf_ol by (rule wf_fold_Insert)
  then have "wf (?s' ol)"
    unfolding replay .
  then have d': "distinct (map Key (Rec (?s' ol)))"
    by (simp add: wf_def)
  have d: "distinct (map Key (Rec (?s ol)))"
    using wf_ol by (simp add: wf_def)
  have kept: ?kept
  proof (intro allI impI)
    fix k
    assume "exists (?s ol) k"
    then have "k \<in> Key ` set (Rec (?s ol))"
      using wf_ol by (simp add: wf_exists)
    then obtain r where r: "r \<in> set (Rec (?s ol))" and k: "k = Key r"
      by auto
    have "r \<in> set (Rec (?s' ol))"
      using r records by simp
    then have "Get (?s' ol) (Key r) = ((Value r, None), ?s' ol)"
      using d' by (intro Get_member)
    moreover have "Get (?s ol) (Key r) = ((Value r, None), ?s ol)"
      using d r by (intro Get_member)
    ultimately show "fst (Get (?s' ol) k) = fst (Get (?s ol) k)"
      unfolding k by simp
  qed
  have added: ?added
  proof (intro allI impI, elim conjE)
    fix r
    assume "r \<in> set (Rec (?s source))" and "\<not> exists (?s ol) (Key r)"
    then have "r \<in> set (Rec (?s' ol))"
      using records by simp
    then have "Get (?s' ol) (Key r) = ((Value r, None), ?s' ol)"
      using d' by (intro Get_member)
    then show "fst (Get (?s' ol) (Key r)) = (Value r, None)"
      by simp
  qed
  show ?thesis
    by (rule conjI [OF replay conjI [OF others conjI [OF source conjI [OF records
          conjI [OF kept added]]]]])
qed

theorem Merge_spec_witness:
  "exists (run [CallInsert 0 ''a'' 1, CallInsert 1 ''a'' 2, CallInsert 1 ''b'' 3] 0) ''a'' \<and>
   \<lparr>Key = ''b'', Value = 3\<rparr> \<in> set (Rec (run [CallInsert 0 ''a'' 1, CallInsert 1 ''a'' 2, CallInsert 1 ''b'' 3] 1)) \<and>
   \<not> exists (run [CallInsert 0 ''a'' 1, CallInsert 1 ''a'' 2, CallInsert 1 ''b'' 3] 0) ''b'' \<and>
   fst (Get (Merge (run [CallInsert 0 ''a'' 1, CallInsert 1 ''a'' 2, CallInsert 1 ''b'' 3]) 0 1 0) ''a'')
     = (1, None) \<and>
   fst (Get (Merge (run [CallInsert 0 ''a'' 1, CallInsert 1 ''a'' 2, CallInsert 1 ''b'' 3]) 0 1 0) ''b'')
     = (3, None) \<and>
   Rec (Merge (run [CallInsert 0 ''a'' 1, CallInsert 1 ''a'' 2, CallInsert 1 ''b'' 3]) 0 1 1)
     = [\<lparr>Key = ''a'', Value = 2\<rparr>, \<lparr>Key = ''b'', Value = 3\<rparr>]"
proof -
  let ?cs = "[CallInsert 0 ''a'' 1, CallInsert 1 ''a'' 2, CallInsert 1 ''b'' 3]"
  note spec = Merge_spec [of ?cs 0 1]
  have old: "exists (run ?cs 0) ''a''"
    by (simp add: eval_defs)
  have new: "\<lparr>Key = ''b'', Value = 3\<rparr> \<in> set (Rec (run ?cs 1)) \<and>
             \<not> exists (run ?cs 0) (Key \<lparr>Key = ''b'', Value = 3\<rparr>)"
    by (simp add: eval_defs)
  have "fst (Get (Merge (run ?cs) 0 1 0) ''a'') = fst (Get (run ?cs 0) ''a'')"
    using spec [THEN conjunct2, THEN conjunct2, THEN conjunct2, THEN conjunct2, THEN conjunct1,
        rule_format, OF old] .
  moreover have "fst (Get (run ?cs 0) ''a'') = (1, None)"
    by (simp add: eval_defs)
  moreover have "fst (Get (Merge (run ?cs) 0 1 0) (Key \<lparr>Key = ''b'', Value = 3\<rparr>)) =
      (Value \<lparr>Key = ''b'', Value = 3\<rparr>, None)"
    using spec [THEN conjunct2, THEN conjunct2, THEN conjunct2, THEN conjunct2, THEN conjunct2,
        rule_format, OF new] .
  moreover have "Merge (run ?cs) 0 1 1 = run ?cs 1"
    using spec [THEN conjunct2, THEN conjunct2, THEN conjunct1] .
  moreover have "Rec (run ?cs 1) = [\<lparr>Key = ''a'', Value = 2\<rparr>, \<lparr>Key = ''b'', Value = 3\<rparr>]"
    by (simp add: eval_defs)
  ultimately show ?thesis
    using old new by simp
qed

text \<open>
  Claim C5, the consistency invariants. In every container of a store reached by any
  sequence of calls, the keys of the map are the keys of the records, there are as many
  of the one as of the other, no key occurs in two records, and a lookup in the map is
  true exactly for the keys of the records.
\<close>

theorem run_consistent:
  "dom (Bookkeeping (run calls ol)) = Key ` set (Rec (run calls ol)) \<and>
   card (dom (Bookkeeping (run calls ol))) = length (Rec (run calls ol)) \<and>
   distinct (map Key (Rec (run calls ol))) \<and>
   (\<forall>k. exists (run calls ol) k \<longleftrightarrow> k \<in> Key ` set (Rec (run calls ol)))"
proof -
  let ?c = "run calls ol"
  have w: "wf ?c" by (rule wf_run)
  then have d: "distinct (map Key (Rec ?c))"
    by (simp add: wf_def)
  have "\<forall>k. Bookkeeping ?c k = (if k \<in> Key ` set (Rec ?c) then Some True else None)"
    using w by (simp add: wf_def)
  then have m: "dom (Bookkeeping ?c) = Key ` set (Rec ?c)"
    by (auto simp: dom_def)
  have "card (Key ` set (Rec ?c)) = length (map Key (Rec ?c))"
    using distinct_card [OF d] by simp
  then have n: "card (dom (Bookkeeping ?c)) = length (Rec ?c)"
    using m by simp
  have e: "\<forall>k. exists ?c k \<longleftrightarrow> k \<in> Key ` set (Rec ?c)"
    using w by (simp add: wf_exists)
  show ?thesis
    by (rule conjI [OF m conjI [OF n conjI [OF d e]]])
qed

theorem run_consistent_witness:
  "card (dom (Bookkeeping (run [CallInsert 0 ''a'' 7, CallInsert 0 ''b'' 3, CallInsert 1 ''c'' 5,
                                CallMerge 0 1, CallUpdate 0 ''a'' 2, CallRemove 0 ''b''] 0))) = 2 \<and>
   dom (Bookkeeping (run [CallInsert 0 ''a'' 7, CallInsert 0 ''b'' 3, CallInsert 1 ''c'' 5,
                          CallMerge 0 1, CallUpdate 0 ''a'' 2, CallRemove 0 ''b''] 0)) = {''a'', ''c''}"
proof -
  let ?c = "run [CallInsert 0 ''a'' 7, CallInsert 0 ''b'' 3, CallInsert 1 ''c'' 5,
                 CallMerge 0 1, CallUpdate 0 ''a'' 2, CallRemove 0 ''b''] 0"
  have rec: "Rec ?c = [\<lparr>Key = ''a'', Value = 2\<rparr>, \<lparr>Key = ''c'', Value = 5\<rparr>]"
    by (simp add: eval_defs)
  have "dom (Bookkeeping ?c) = Key ` set (Rec ?c) \<and> card (dom (Bookkeeping ?c)) = length (Rec ?c)"
    using run_consistent [of "[CallInsert 0 ''a'' 7, CallInsert 0 ''b'' 3, CallInsert 1 ''c'' 5,
                 CallMerge 0 1, CallUpdate 0 ''a'' 2, CallRemove 0 ''b'']" 0]
    by (elim conjE) (intro conjI)
  then show ?thesis
    unfolding rec by simp
qed

text \<open>
  Claim C6, \<^verbatim>\<open>Update\<close>. When no record has the key, \<^verbatim>\<open>Update\<close> returns the
  error "key does not exists" and the container is unchanged. When a record has the key,
  in a container whose keys are pairwise distinct, \<^verbatim>\<open>Update\<close> is \<^verbatim>\<open>Insert\<close>
  after \<^verbatim>\<open>Remove\<close>, it succeeds, \<^verbatim>\<open>Get\<close> then returns the new value, and the
  record is placed among the other records at the position of the new value: at the
  smallest index whose record has a value not below it, or at the end.
\<close>

theorem Update_spec:
  "(key \<notin> Key ` set (Rec ol) \<longrightarrow> Update ol key value = (Some KeyDoesNotExist, ol)) \<and>
   (key \<in> Key ` set (Rec ol) \<and> distinct (map Key (Rec ol)) \<longrightarrow>
      Update ol key value = Insert (snd (Remove ol key)) key value \<and>
      fst (Update ol key value) = None \<and>
      fst (Get (snd (Update ol key value)) key) = (value, None) \<and>
      (\<forall>i. i < length (filter (\<lambda>r. Key r \<noteq> key) (Rec ol)) \<and>
            value \<le> Value (filter (\<lambda>r. Key r \<noteq> key) (Rec ol) ! i) \<and>
            (\<forall>j<i. \<not> value \<le> Value (filter (\<lambda>r. Key r \<noteq> key) (Rec ol) ! j)) \<longrightarrow>
          Rec (snd (Update ol key value)) =
            take i (filter (\<lambda>r. Key r \<noteq> key) (Rec ol)) @ \<lparr>Key = key, Value = value\<rparr> #
            drop i (filter (\<lambda>r. Key r \<noteq> key) (Rec ol))) \<and>
      ((\<forall>i<length (filter (\<lambda>r. Key r \<noteq> key) (Rec ol)).
            \<not> value \<le> Value (filter (\<lambda>r. Key r \<noteq> key) (Rec ol) ! i)) \<longrightarrow>
          Rec (snd (Update ol key value)) =
            filter (\<lambda>r. Key r \<noteq> key) (Rec ol) @ [\<lparr>Key = key, Value = value\<rparr>]))"
  (is "?absent \<and> (?pre \<longrightarrow> ?composed \<and> ?ok \<and> ?get \<and> ?at \<and> ?end)")
proof -
  let ?rest = "filter (\<lambda>r. Key r \<noteq> key) (Rec ol)"
  let ?P = "\<lambda>r. Value r < value"
  let ?new = "\<lparr>Key = key, Value = value\<rparr>"
  have absent: ?absent
    by (simp add: Update_eq)
  have present: "?pre \<longrightarrow> ?composed \<and> ?ok \<and> ?get \<and> ?at \<and> ?end"
  proof (intro impI, elim conjE)
    assume k: "key \<in> Key ` set (Rec ol)" and d: "distinct (map Key (Rec ol))"
    let ?ol1 = "snd (Remove ol key)"
    have upd: "Update ol key value = Insert ?ol1 key value"
      using k by (simp add: Update_eq)
    have rec1: "Rec ?ol1 = ?rest"
      by (simp add: Remove_present [OF k] remove_filter [OF d])
    have fresh: "\<not> exists ?ol1 key"
      by (simp add: Remove_present [OF k] exists_def)
    have gone: "key \<notin> Key ` set (Rec ?ol1)"
      unfolding rec1 by auto
    have "Rec (snd (Insert ?ol1 key value)) =
        takeWhile ?P (Rec ?ol1) @ ?new # dropWhile ?P (Rec ?ol1)"
      by (simp add: Insert_eq [OF fresh])
    then have rec2: "Rec (snd (Update ol key value)) =
        takeWhile ?P ?rest @ ?new # dropWhile ?P ?rest"
      unfolding upd rec1 .
    have "fst (Insert ?ol1 key value) = None"
      by (simp add: Insert_eq [OF fresh])
    then have ok: ?ok
      unfolding upd .
    have "fst (Get (snd (Insert ?ol1 key value)) key) = (value, None)"
      using Get_Insert [OF fresh gone, of "value"] by simp
    then have get: ?get
      unfolding upd .
    have at: ?at
    proof (intro allI impI, elim conjE)
      fix i
      assume i: "i < length ?rest" and here: "value \<le> Value (?rest ! i)"
        and before: "\<forall>j<i. \<not> value \<le> Value (?rest ! j)"
      have "\<not> ?P (?rest ! i)" and "\<forall>j<i. ?P (?rest ! j)"
        using here before by (simp_all add: not_le)
      then show "Rec (snd (Update ol key value)) = take i ?rest @ ?new # drop i ?rest"
        unfolding rec2 using i by (intro place_at_index)
    qed
    have last: ?end
    proof (intro impI)
      assume "\<forall>i<length ?rest. \<not> value \<le> Value (?rest ! i)"
      then have "\<forall>j<length ?rest. ?P (?rest ! j)"
        by (simp add: not_le)
      then show "Rec (snd (Update ol key value)) = ?rest @ [?new]"
        unfolding rec2 by (rule place_at_end)
    qed
    show "?composed \<and> ?ok \<and> ?get \<and> ?at \<and> ?end"
      by (rule conjI [OF upd conjI [OF ok conjI [OF get conjI [OF at last]]]])
  qed
  show ?thesis
    by (rule conjI [OF absent present])
qed

theorem Update_spec_witness:
  "''a'' \<in> Key ` set [\<lparr>Key = ''a'', Value = 2\<rparr>, \<lparr>Key = ''b'', Value = 5\<rparr>, \<lparr>Key = ''c'', Value = 9\<rparr>] \<and>
   distinct (map Key [\<lparr>Key = ''a'', Value = 2\<rparr>, \<lparr>Key = ''b'', Value = 5\<rparr>, \<lparr>Key = ''c'', Value = 9\<rparr>]) \<and>
   fst (Update \<lparr>Bookkeeping = [''a'' \<mapsto> True, ''b'' \<mapsto> True, ''c'' \<mapsto> True],
                Rec = [\<lparr>Key = ''a'', Value = 2\<rparr>, \<lparr>Key = ''b'', Value = 5\<rparr>,
                       \<lparr>Key = ''c'', Value = 9\<rparr>]\<rparr> ''a'' 7) = None \<and>
   fst (Get (snd (Update \<lparr>Bookkeeping = [''a'' \<mapsto> True, ''b'' \<mapsto> True, ''c'' \<mapsto> True],
                Rec = [\<lparr>Key = ''a'', Value = 2\<rparr>, \<lparr>Key = ''b'', Value = 5\<rparr>,
                       \<lparr>Key = ''c'', Value = 9\<rparr>]\<rparr> ''a'' 7)) ''a'') = (7, None) \<and>
   Rec (snd (Update \<lparr>Bookkeeping = [''a'' \<mapsto> True, ''b'' \<mapsto> True, ''c'' \<mapsto> True],
                Rec = [\<lparr>Key = ''a'', Value = 2\<rparr>, \<lparr>Key = ''b'', Value = 5\<rparr>,
                       \<lparr>Key = ''c'', Value = 9\<rparr>]\<rparr> ''a'' 7))
     = [\<lparr>Key = ''b'', Value = 5\<rparr>, \<lparr>Key = ''a'', Value = 7\<rparr>, \<lparr>Key = ''c'', Value = 9\<rparr>] \<and>
   ''z'' \<notin> Key ` set [\<lparr>Key = ''a'', Value = 2\<rparr>, \<lparr>Key = ''b'', Value = 5\<rparr>, \<lparr>Key = ''c'', Value = 9\<rparr>] \<and>
   fst (Update \<lparr>Bookkeeping = [''a'' \<mapsto> True, ''b'' \<mapsto> True, ''c'' \<mapsto> True],
                Rec = [\<lparr>Key = ''a'', Value = 2\<rparr>, \<lparr>Key = ''b'', Value = 5\<rparr>,
                       \<lparr>Key = ''c'', Value = 9\<rparr>]\<rparr> ''z'' 7) = Some KeyDoesNotExist"
proof -
  let ?rs = "[\<lparr>Key = ''a'', Value = 2\<rparr>, \<lparr>Key = ''b'', Value = 5\<rparr>, \<lparr>Key = ''c'', Value = (9::64 word)\<rparr>]"
  let ?ol = "\<lparr>Bookkeeping = [''a'' \<mapsto> True, ''b'' \<mapsto> True, ''c'' \<mapsto> True], Rec = ?rs\<rparr>"
  let ?rest = "filter (\<lambda>r. Key r \<noteq> ''a'') (Rec ?ol)"
  have pres: "''a'' \<in> Key ` set (Rec ?ol) \<and> distinct (map Key (Rec ?ol))"
    by simp
  have abs: "''z'' \<notin> Key ` set (Rec ?ol)"
    by simp
  have idx: "(1::nat) < length ?rest \<and> (7::64 word) \<le> Value (?rest ! 1) \<and>
             (\<forall>j<1. \<not> (7::64 word) \<le> Value (?rest ! j))"
    by simp
  note present = Update_spec [of "''a''" ?ol 7, THEN conjunct2, rule_format, OF pres]
  have "fst (Update ?ol ''a'' 7) = None"
    using present by (elim conjE)
  moreover have "fst (Get (snd (Update ?ol ''a'' 7)) ''a'') = (7, None)"
    using present by (elim conjE)
  moreover have "Rec (snd (Update ?ol ''a'' 7)) =
      take 1 ?rest @ \<lparr>Key = ''a'', Value = 7\<rparr> # drop 1 ?rest"
    using present [THEN conjunct2, THEN conjunct2, THEN conjunct2, THEN conjunct1, rule_format,
        OF idx] .
  moreover have "Update ?ol ''z'' 7 = (Some KeyDoesNotExist, ?ol)"
    using Update_spec [of "''z''" ?ol 7, THEN conjunct1, rule_format, OF abs] .
  ultimately show ?thesis
    by simp
qed

text \<open>
  Claim C7, \<^verbatim>\<open>Remove\<close>. \<^verbatim>\<open>Remove\<close> takes out the first record with the key,
  moves the later records down by one and deletes the key from the map. In a container
  whose keys are pairwise distinct, that record is the only one with the key: the other
  records stay, in their order, and \<^verbatim>\<open>Get\<close> then fails with the error
  "key does not exists". When no record has the key, \<^verbatim>\<open>Remove\<close> returns that error
  and the container is unchanged.
\<close>

theorem Remove_spec:
  "(\<forall>i. i < length (Rec ol) \<and> Key (Rec ol ! i) = key \<and> (\<forall>j<i. Key (Rec ol ! j) \<noteq> key) \<longrightarrow>
        Remove ol key =
          (None, ol\<lparr>Rec := take i (Rec ol) @ drop (Suc i) (Rec ol),
                    Bookkeeping := (Bookkeeping ol)(key := None)\<rparr>)) \<and>
   (key \<in> Key ` set (Rec ol) \<and> distinct (map Key (Rec ol)) \<longrightarrow>
        fst (Remove ol key) = None \<and>
        Rec (snd (Remove ol key)) = filter (\<lambda>r. Key r \<noteq> key) (Rec ol) \<and>
        Bookkeeping (snd (Remove ol key)) = (Bookkeeping ol)(key := None) \<and>
        \<not> exists (snd (Remove ol key)) key \<and>
        fst (Get (snd (Remove ol key)) key) = (0, Some KeyDoesNotExist)) \<and>
   (key \<notin> Key ` set (Rec ol) \<longrightarrow> Remove ol key = (Some KeyDoesNotExist, ol))"
  (is "?first \<and> ?present \<and> ?absent")
proof -
  let ?Q = "\<lambda>r. Key r \<noteq> key"
  have first: ?first
  proof (intro allI impI, elim conjE)
    fix i
    assume i: "i < length (Rec ol)" and ki: "Key (Rec ol ! i) = key"
      and before: "\<forall>j<i. Key (Rec ol ! j) \<noteq> key"
    have "key \<in> Key ` set (Rec ol)"
      using i ki by (metis imageI nth_mem)
    moreover have "takeWhile ?Q (Rec ol) @ tl (dropWhile ?Q (Rec ol)) =
        take i (Rec ol) @ drop (Suc i) (Rec ol)"
      using i ki before by (intro first_index) simp_all
    ultimately show "Remove ol key =
          (None, ol\<lparr>Rec := take i (Rec ol) @ drop (Suc i) (Rec ol),
                    Bookkeeping := (Bookkeeping ol)(key := None)\<rparr>)"
      by (simp add: Remove_present)
  qed
  have present: ?present
  proof (intro impI, elim conjE)
    assume k: "key \<in> Key ` set (Rec ol)" and d: "distinct (map Key (Rec ol))"
    have rec: "Rec (snd (Remove ol key)) = filter ?Q (Rec ol)"
      by (simp add: Remove_present [OF k] remove_filter [OF d])
    have "key \<notin> Key ` set (Rec (snd (Remove ol key)))"
      unfolding rec by auto
    then have "Get (snd (Remove ol key)) key = ((0, Some KeyDoesNotExist), snd (Remove ol key))"
      by (rule Get_absent)
    then have get: "fst (Get (snd (Remove ol key)) key) = (0, Some KeyDoesNotExist)"
      by simp
    have "fst (Remove ol key) = None"
      and "Bookkeeping (snd (Remove ol key)) = (Bookkeeping ol)(key := None)"
      and "\<not> exists (snd (Remove ol key)) key"
      by (simp_all add: Remove_present [OF k] exists_def)
    with rec get show "fst (Remove ol key) = None \<and>
        Rec (snd (Remove ol key)) = filter ?Q (Rec ol) \<and>
        Bookkeeping (snd (Remove ol key)) = (Bookkeeping ol)(key := None) \<and>
        \<not> exists (snd (Remove ol key)) key \<and>
        fst (Get (snd (Remove ol key)) key) = (0, Some KeyDoesNotExist)"
      by (intro conjI)
  qed
  have absent: ?absent
    by (intro impI) (rule Remove_absent)
  show ?thesis
    by (rule conjI [OF first conjI [OF present absent]])
qed

theorem Remove_spec_witness:
  "(1::nat) < length [\<lparr>Key = ''a'', Value = 2\<rparr>, \<lparr>Key = ''b'', Value = 5\<rparr>, \<lparr>Key = ''c'', Value = 9\<rparr>] \<and>
   Key ([\<lparr>Key = ''a'', Value = 2\<rparr>, \<lparr>Key = ''b'', Value = 5\<rparr>, \<lparr>Key = ''c'', Value = 9\<rparr>] ! 1) = ''b'' \<and>
   Key ([\<lparr>Key = ''a'', Value = 2\<rparr>, \<lparr>Key = ''b'', Value = 5\<rparr>, \<lparr>Key = ''c'', Value = 9\<rparr>] ! 0) \<noteq> ''b'' \<and>
   distinct (map Key [\<lparr>Key = ''a'', Value = 2\<rparr>, \<lparr>Key = ''b'', Value = 5\<rparr>, \<lparr>Key = ''c'', Value = 9\<rparr>]) \<and>
   Rec (snd (Remove \<lparr>Bookkeeping = [''a'' \<mapsto> True, ''b'' \<mapsto> True, ''c'' \<mapsto> True],
                     Rec = [\<lparr>Key = ''a'', Value = 2\<rparr>, \<lparr>Key = ''b'', Value = 5\<rparr>,
                            \<lparr>Key = ''c'', Value = 9\<rparr>]\<rparr> ''b''))
     = [\<lparr>Key = ''a'', Value = 2\<rparr>, \<lparr>Key = ''c'', Value = 9\<rparr>] \<and>
   fst (Get (snd (Remove \<lparr>Bookkeeping = [''a'' \<mapsto> True, ''b'' \<mapsto> True, ''c'' \<mapsto> True],
                     Rec = [\<lparr>Key = ''a'', Value = 2\<rparr>, \<lparr>Key = ''b'', Value = 5\<rparr>,
                            \<lparr>Key = ''c'', Value = 9\<rparr>]\<rparr> ''b'')) ''b'')
     = (0, Some KeyDoesNotExist) \<and>
   ''z'' \<notin> Key ` set [\<lparr>Key = ''a'', Value = 2\<rparr>, \<lparr>Key = ''b'', Value = 5\<rparr>, \<lparr>Key = ''c'', Value = 9\<rparr>] \<and>
   fst (Remove \<lparr>Bookkeeping = [''a'' \<mapsto> True, ''b'' \<mapsto> True, ''c'' \<mapsto> True],
                     Rec = [\<lparr>Key = ''a'', Value = 2\<rparr>, \<lparr>Key = ''b'', Value = 5\<rparr>,
                            \<lparr>Key = ''c'', Value = 9\<rparr>]\<rparr> ''z'') = Some KeyDoesNotExist"
proof -
  let ?rs = "[\<lparr>Key = ''a'', Value = 2\<rparr>, \<lparr>Key = ''b'', Value = 5\<rparr>, \<lparr>Key = ''c'', Value = (9::64 word)\<rparr>]"
  let ?ol = "\<lparr>Bookkeeping = [''a'' \<mapsto> True, ''b'' \<mapsto> True, ''c'' \<mapsto> True], Rec = ?rs\<rparr>"
  have idx: "(1::nat) < length (Rec ?ol) \<and> Key (Rec ?ol ! 1) = ''b'' \<and>
             (\<forall>j<1. Key (Rec ?ol ! j) \<noteq> ''b'')"
    by simp
  have pres: "''b'' \<in> Key ` set (Rec ?ol) \<and> distinct (map Key (Rec ?ol))"
    by simp
  have abs: "''z'' \<notin> Key ` set (Rec ?ol)"
    by simp
  have "Remove ?ol ''b'' =
          (None, ?ol\<lparr>Rec := take 1 (Rec ?ol) @ drop (Suc 1) (Rec ?ol),
                     Bookkeeping := (Bookkeeping ?ol)(''b'' := None)\<rparr>)"
    using Remove_spec [of ?ol "''b''", THEN conjunct1, rule_format, OF idx] .
  moreover have "fst (Get (snd (Remove ?ol ''b'')) ''b'') = (0, Some KeyDoesNotExist)"
    using Remove_spec [of ?ol "''b''", THEN conjunct2, THEN conjunct1, rule_format, OF pres]
    by (elim conjE)
  moreover have "Remove ?ol ''z'' = (Some KeyDoesNotExist, ?ol)"
    using Remove_spec [of ?ol "''z''", THEN conjunct2, THEN conjunct2, rule_format, OF abs] .
  ultimately show ?thesis
    by simp
qed

text \<open>
  Claim C8, the round trip. In any container, for a key that neither the map nor a
  record holds, \<^verbatim>\<open>Insert\<close> succeeds and \<^verbatim>\<open>Get\<close> then returns the inserted
  value. \<^verbatim>\<open>Get\<close> leaves the container as it is, and it returns the error
  "key does not exists" exactly when no record has the key.
\<close>

theorem Insert_Get_roundtrip:
  "(\<not> exists ol k \<and> k \<notin> Key ` set (Rec ol) \<longrightarrow>
      fst (Insert ol k v) = None \<and> fst (Get (snd (Insert ol k v)) k) = (v, None)) \<and>
   snd (Get ol k) = ol \<and>
   (snd (fst (Get ol k)) = Some KeyDoesNotExist \<longleftrightarrow> k \<notin> Key ` set (Rec ol)) \<and>
   (snd (fst (Get ol k)) = None \<longleftrightarrow> k \<in> Key ` set (Rec ol))"
  (is "?roundtrip \<and> ?pure \<and> ?fails \<and> ?succeeds")
proof -
  have roundtrip: ?roundtrip
  proof (intro impI, elim conjE)
    assume fresh: "\<not> exists ol k" and new: "k \<notin> Key ` set (Rec ol)"
    have "fst (Insert ol k v) = None"
      by (simp add: Insert_eq [OF fresh])
    moreover have "fst (Get (snd (Insert ol k v)) k) = (v, None)"
      using Get_Insert [OF fresh new, of v] by simp
    ultimately show "fst (Insert ol k v) = None \<and> fst (Get (snd (Insert ol k v)) k) = (v, None)"
      by (intro conjI)
  qed
  have pure: ?pure
    by (cases "k \<in> Key ` set (Rec ol)") (simp_all add: Get_present Get_absent)
  have fails: ?fails
    by (cases "k \<in> Key ` set (Rec ol)") (simp_all add: Get_present Get_absent)
  have succeeds: ?succeeds
    by (cases "k \<in> Key ` set (Rec ol)") (simp_all add: Get_present Get_absent)
  show ?thesis
    by (rule conjI [OF roundtrip conjI [OF pure conjI [OF fails succeeds]]])
qed

theorem Insert_Get_roundtrip_witness:
  "\<not> exists \<lparr>Bookkeeping = [''a'' \<mapsto> True], Rec = [\<lparr>Key = ''a'', Value = 4\<rparr>]\<rparr> ''b'' \<and>
   ''b'' \<notin> Key ` set [\<lparr>Key = ''a'', Value = 4\<rparr>] \<and>
   fst (Insert \<lparr>Bookkeeping = [''a'' \<mapsto> True], Rec = [\<lparr>Key = ''a'', Value = 4\<rparr>]\<rparr> ''b'' 3) = None \<and>
   fst (Get (snd (Insert \<lparr>Bookkeeping = [''a'' \<mapsto> True], Rec = [\<lparr>Key = ''a'', Value = 4\<rparr>]\<rparr>
                   ''b'' 3)) ''b'') = (3, None)"
proof -
  let ?ol = "\<lparr>Bookkeeping = [''a'' \<mapsto> True], Rec = [\<lparr>Key = ''a'', Value = (4::64 word)\<rparr>]\<rparr>"
  have h: "\<not> exists ?ol ''b'' \<and> ''b'' \<notin> Key ` set (Rec ?ol)"
    by (simp add: exists_def)
  have "fst (Insert ?ol ''b'' 3) = None \<and> fst (Get (snd (Insert ?ol ''b'' 3)) ''b'') = (3, None)"
    using Insert_Get_roundtrip [of ?ol "''b''" 3, THEN conjunct1, rule_format, OF h] .
  then show ?thesis
    using h by simp
qed

text \<open>
  Claim C9, the empty container. The claim asks for an error value from
  \<^verbatim>\<open>GetLowest\<close> and \<^verbatim>\<open>GetHighest\<close> on the empty container. Both index the
  slice without a check, so on the container that \<^verbatim>\<open>New\<close> returns each of them
  panics with an index out of range.
\<close>

theorem New_GetLowest_GetHighest_panic:
  "GetLowest New = (Inl IndexOutOfRange, New) \<and> GetHighest New = (Inl IndexOutOfRange, New)"
  by (simp add: GetLowest_def GetHighest_def New_def)

text \<open>
  Claim C10, merging into the empty container. When the receiver is the empty container
  and the keys of the source's records are pairwise distinct, the receiver holds after
  \<^verbatim>\<open>Merge\<close> the records of the source and no other: \<^verbatim>\<open>Get\<close> returns for each
  key of the source what it returns on the source, it fails for every other key, and the
  keys of the receiver's map are the keys of the source.
\<close>

theorem Merge_into_empty:
  assumes "s ol = New" and "distinct (map Key (Rec (s source)))"
  shows "set (Rec (Merge s ol source ol)) = set (Rec (s source)) \<and>
         (\<forall>k. k \<in> Key ` set (Rec (s source)) \<longrightarrow>
              fst (Get (Merge s ol source ol) k) = fst (Get (s source) k)) \<and>
         (\<forall>k. k \<notin> Key ` set (Rec (s source)) \<longrightarrow>
              fst (Get (Merge s ol source ol) k) = (0, Some KeyDoesNotExist)) \<and>
         dom (Bookkeeping (Merge s ol source ol)) = Key ` set (Rec (s source))"
  (is "?records \<and> ?same \<and> ?none \<and> ?keys")
proof -
  let ?ins = "\<lambda>c r. snd (Insert c (Key r) (Value r))"
  let ?c = "Merge s ol source ol"
  have c: "?c = foldl ?ins New (Rec (s source))"
    using assms(1) by (simp add: Merge_def Merge_loop_eq)
  have "set (Rec (foldl ?ins New (Rec (s source)))) =
      set (Rec New) \<union> {r \<in> set (Rec (s source)). \<not> exists New (Key r)}"
    using assms(2) by (rule fold_Insert_set)
  then have records: ?records
    unfolding c by (simp add: New_def exists_def)
  have "wf (foldl ?ins New (Rec (s source)))"
    using wf_New by (rule wf_fold_Insert)
  then have w: "wf ?c"
    unfolding c .
  then have d: "distinct (map Key (Rec ?c))"
    by (simp add: wf_def)
  have same: ?same
  proof (intro allI impI)
    fix k
    assume "k \<in> Key ` set (Rec (s source))"
    then obtain r where r: "r \<in> set (Rec (s source))" and k: "k = Key r"
      by auto
    have "r \<in> set (Rec ?c)"
      using r records by simp
    then have "Get ?c (Key r) = ((Value r, None), ?c)"
      using d by (intro Get_member)
    moreover have "Get (s source) (Key r) = ((Value r, None), s source)"
      using assms(2) r by (intro Get_member)
    ultimately show "fst (Get ?c k) = fst (Get (s source) k)"
      unfolding k by simp
  qed
  have none: ?none
  proof (intro allI impI)
    fix k
    assume "k \<notin> Key ` set (Rec (s source))"
    then have "k \<notin> Key ` set (Rec ?c)"
      using records by simp
    then have "Get ?c k = ((0, Some KeyDoesNotExist), ?c)"
      by (rule Get_absent)
    then show "fst (Get ?c k) = (0, Some KeyDoesNotExist)"
      by simp
  qed
  have "\<forall>k. Bookkeeping ?c k = (if k \<in> Key ` set (Rec ?c) then Some True else None)"
    using w by (simp add: wf_def)
  then have "dom (Bookkeeping ?c) = Key ` set (Rec ?c)"
    by (auto simp: dom_def)
  then have keys: ?keys
    using records by simp
  show ?thesis
    by (rule conjI [OF records conjI [OF same conjI [OF none keys]]])
qed

theorem Merge_into_empty_witness:
  "run [CallInsert 1 ''a'' 2, CallInsert 1 ''b'' 3] 0 = New \<and>
   distinct (map Key (Rec (run [CallInsert 1 ''a'' 2, CallInsert 1 ''b'' 3] 1))) \<and>
   ''b'' \<in> Key ` set (Rec (run [CallInsert 1 ''a'' 2, CallInsert 1 ''b'' 3] 1)) \<and>
   ''z'' \<notin> Key ` set (Rec (run [CallInsert 1 ''a'' 2, CallInsert 1 ''b'' 3] 1)) \<and>
   set (Rec (Merge (run [CallInsert 1 ''a'' 2, CallInsert 1 ''b'' 3]) 0 1 0)) =
     {\<lparr>Key = ''a'', Value = 2\<rparr>, \<lparr>Key = ''b'', Value = 3\<rparr>} \<and>
   fst (Get (Merge (run [CallInsert 1 ''a'' 2, CallInsert 1 ''b'' 3]) 0 1 0) ''b'') = (3, None) \<and>
   fst (Get (Merge (run [CallInsert 1 ''a'' 2, CallInsert 1 ''b'' 3]) 0 1 0) ''z'')
     = (0, Some KeyDoesNotExist)"
proof -
  let ?s = "run [CallInsert 1 ''a'' 2, CallInsert 1 ''b'' 3]"
  have empty: "?s 0 = New"
    by (simp add: eval_defs)
  have src: "Rec (?s 1) = [\<lparr>Key = ''a'', Value = 2\<rparr>, \<lparr>Key = ''b'', Value = 3\<rparr>]"
    by (simp add: eval_defs)
  have d: "distinct (map Key (Rec (?s 1)))"
    unfolding src by simp
  have b: "''b'' \<in> Key ` set (Rec (?s 1))" and z: "''z'' \<notin> Key ` set (Rec (?s 1))"
    unfolding src by simp_all
  note spec = Merge_into_empty [of ?s 0 1, OF empty d]
  have "set (Rec (Merge ?s 0 1 0)) = set (Rec (?s 1))"
    using spec [THEN conjunct1] .
  then have "set (Rec (Merge ?s 0 1 0)) = {\<lparr>Key = ''a'', Value = 2\<rparr>, \<lparr>Key = ''b'', Value = 3\<rparr>}"
    unfolding src by simp
  moreover have "fst (Get (Merge ?s 0 1 0) ''b'') = fst (Get (?s 1) ''b'')"
    using spec [THEN conjunct2, THEN conjunct1, rule_format, OF b] .
  moreover have "fst (Get (?s 1) ''b'') = (3, None)"
    by (simp add: eval_defs)
  moreover have "fst (Get (Merge ?s 0 1 0) ''z'') = (0, Some KeyDoesNotExist)"
    using spec [THEN conjunct2, THEN conjunct2, THEN conjunct1, rule_format, OF z] .
  ultimately show ?thesis
    using empty d b z by simp
qed

end
